theory Spec2Isabelle
  imports Main "HOL-Library.Word"
begin

unbundle bit_operations_syntax

section \<open>Bytes, errors and checked buffer access\<close>

type_synonym byte = "8 word"

text \<open>
  A Go \<open>string\<close> is an immutable sequence of bytes, and \<open>string(data[a:b])\<close> copies
  the bytes as they are, so strings decoded from the wire are byte lists here.
\<close>

type_synonym gostring = "byte list"

text \<open>The protocol constants of the client.\<close>

definition Header :: "32 word" where "Header = 0xFFFFFFFF"
definition SPLIT_FLAG :: "32 word" where "SPLIT_FLAG = 0xFFFFFFFE"
definition A2S_INFO :: byte where "A2S_INFO = 0x54"
definition A2S_PLAYER :: byte where "A2S_PLAYER = 0x55"
definition A2S_RULES :: byte where "A2S_RULES = 0x56"
definition A2S_CHALLENGE :: byte where "A2S_CHALLENGE = 0x41"
definition S2C_CHALLENGE :: byte where "S2C_CHALLENGE = 0x41"
definition S2A_PLAYER :: byte where "S2A_PLAYER = 0x44"
definition S2A_RULES :: byte where "S2A_RULES = 0x45"

text \<open>
  The error values of \<open>errors.go\<close>, followed by the errors the client builds in place:
  \<open>ProtocolError\<close> carries the expected and the actual type byte, \<open>UnknownHeader\<close> the
  header read, \<open>WriteError\<close> and \<open>ReadError\<close> wrap an error of the socket,
  \<open>ChallengeNotReceived\<close> is \<open>errors.New("challenge not received")\<close>, and
  \<open>ResolveError\<close>, \<open>DialError\<close>, \<open>DeadlineError\<close> and \<open>CloseError\<close> are the
  errors of the network library that \<open>Connect\<close> and \<open>Close\<close> hand on.
\<close>

datatype error =
    ErrChallengeRequired
  | ErrTimeout
  | ErrInvalidResponse
  | ErrNotConnected
  | ErrTooManyRetries
  | ErrUnsupportedFeature
  | ErrShortResponse
  | ProtocolError byte byte
  | UnknownHeader "32 word"
  | WriteError
  | ReadError
  | ChallengeNotReceived
  | ResolveError
  | DialError
  | DeadlineError
  | CloseError

text \<open>
  A call either returns an error value or panics: an index \<open>i\<close> outside a buffer of
  length \<open>n\<close> (\<open>PanicIndex i n\<close>), or a slice \<open>b[i:]\<close> with \<open>i\<close> beyond the length
  (\<open>PanicSlice i n\<close>). Nothing in the client recovers from a panic, so a panic goes up
  through every caller.
\<close>

datatype fault = Err error | PanicIndex nat nat | PanicSlice nat nat

type_synonym 'a result = "fault + 'a"

definition bindR :: "'a result \<Rightarrow> ('a \<Rightarrow> 'b result) \<Rightarrow> 'b result" where
  "bindR r f = (case r of Inl e \<Rightarrow> Inl e | Inr v \<Rightarrow> f v)"

text \<open>\<open>data[i]\<close>: the byte at index \<open>i\<close>, a panic outside the buffer.\<close>

definition index :: "byte list \<Rightarrow> nat \<Rightarrow> byte result" where
  "index data i = (if i < length data then Inr (data ! i) else Inl (PanicIndex i (length data)))"

text \<open>\<open>data[i:]\<close>: the rest of the buffer from \<open>i\<close>, a panic when \<open>i\<close> is beyond its length.\<close>

definition slice_from :: "byte list \<Rightarrow> nat \<Rightarrow> byte list result" where
  "slice_from data i = (if i \<le> length data then Inr (drop i data) else Inl (PanicSlice i (length data)))"

text \<open>
  \<open>binary.LittleEndian\<close>: \<open>Uint16\<close>, \<open>Uint32\<close> and \<open>Uint64\<close> first touch the last
  byte they need (\<open>_ = b[1]\<close>, \<open>_ = b[3]\<close>, \<open>_ = b[7]\<close>) and so panic on a shorter slice.
\<close>

definition le16 :: "byte \<Rightarrow> byte \<Rightarrow> 16 word" where
  "le16 b0 b1 = ucast b0 OR push_bit 8 (ucast b1)"

definition le32 :: "byte \<Rightarrow> byte \<Rightarrow> byte \<Rightarrow> byte \<Rightarrow> 32 word" where
  "le32 b0 b1 b2 b3 =
     ucast b0 OR push_bit 8 (ucast b1) OR push_bit 16 (ucast b2) OR push_bit 24 (ucast b3)"


definition Uint16 :: "byte list \<Rightarrow> 16 word result" where
  "Uint16 b = (if length b < 2 then Inl (PanicIndex 1 (length b)) else Inr (le16 (b ! 0) (b ! 1)))"

definition Uint32 :: "byte list \<Rightarrow> 32 word result" where
  "Uint32 b =
     (if length b < 4 then Inl (PanicIndex 3 (length b))
      else Inr (le32 (b ! 0) (b ! 1) (b ! 2) (b ! 3)))"


text \<open>The four bytes \<open>PutUint32\<close> writes for a value, lowest byte first.\<close>

definition bytes32 :: "32 word \<Rightarrow> byte list" where
  "bytes32 v = [ucast v, ucast (drop_bit 8 v), ucast (drop_bit 16 v), ucast (drop_bit 24 v)]"

text \<open>
  \<open>binary.LittleEndian.PutUint32(b[off:], v)\<close> on the buffer \<open>b\<close>: the slice panics when
  \<open>off\<close> is beyond the buffer, the write when fewer than four bytes are left; otherwise
  the four bytes from \<open>off\<close> are overwritten.
\<close>

definition PutUint32 :: "byte list \<Rightarrow> nat \<Rightarrow> 32 word \<Rightarrow> byte list result" where
  "PutUint32 b off v =
     (if length b < off then Inl (PanicSlice off (length b))
      else if length b - off < 4 then Inl (PanicIndex 3 (length b - off))
      else Inr (take off b @ bytes32 v @ drop (off + 4) b))"

text \<open>\<open>b[off] = x\<close>.\<close>

definition store :: "byte list \<Rightarrow> nat \<Rightarrow> byte \<Rightarrow> byte list result" where
  "store b off x = (if off < length b then Inr (b[off := x]) else Inl (PanicIndex off (length b)))"

text \<open>
  \<open>copy(b[off:], src)\<close>: copies as many bytes as fit, \<open>min (len b - off) (len src)\<close>,
  and panics only when the slice does.
\<close>

definition copy_at :: "byte list \<Rightarrow> nat \<Rightarrow> byte list \<Rightarrow> byte list result" where
  "copy_at b off src =
     (if length b < off then Inl (PanicSlice off (length b))
      else Inr (take off b @ take (length b - off) src @ drop (off + length src) b))"

section \<open>The client\<close>

text \<open>
  \<open>conn\<close> is \<open>True\<close> when the pointer to the UDP connection is not nil. The challenge
  is an \<open>int32\<close> that the code converts to and from \<open>uint32\<close> bit for bit, so it is a
  32-bit word; the sentinel \<open>-1\<close> is the word \<open>0xFFFFFFFF\<close>.
\<close>

record Client =
  conn :: bool
  challenge :: "32 word"
  timeout :: int
  connected :: bool

definition NewClient :: "int \<Rightarrow> Client" where
  "NewClient t = \<lparr>conn = False, challenge = - 1, timeout = t, connected = False\<rparr>"

definition IsConnected :: "Client \<Rightarrow> bool" where
  "IsConnected c = (connected c \<and> conn c)"

subsection \<open>Building a request\<close>

definition buildPacket :: "Client \<Rightarrow> byte \<Rightarrow> byte list \<Rightarrow> byte list result" where
  "buildPacket c packetType payload =
     (let challengeAtBeginning = (packetType = A2S_PLAYER \<or> packetType = A2S_RULES);
          challengeAtEnd = (packetType = A2S_INFO \<and> challenge c \<noteq> - 1);
          size0 = 4 + 1;
          size1 = (if challengeAtBeginning then size0 + 4 else size0);
          size2 = size1 + length payload;
          size3 = (if challengeAtEnd then size2 + 4 else size2);
          packet0 = replicate size3 (0 :: byte);
          offset0 = 0
      in bindR (PutUint32 packet0 offset0 Header) (\<lambda>packet1.
         let offset1 = offset0 + 4
         in bindR (store packet1 offset1 packetType) (\<lambda>packet2.
         let offset2 = offset1 + 1
         in bindR (if challengeAtBeginning
                   then bindR (PutUint32 packet2 offset2 (challenge c))
                          (\<lambda>p. Inr (p, offset2 + 4))
                   else Inr (packet2, offset2)) (\<lambda>(packet3, offset3).
            bindR (copy_at packet3 offset3 payload) (\<lambda>packet4.
            let offset4 = offset3 + length payload
            in if challengeAtEnd then PutUint32 packet4 offset4 (challenge c)
               else Inr packet4)))))"

text \<open>
  The layout of a request as the specification words it: header, type, challenge for
  PLAYER and RULES, payload, challenge for INFO when one is known.
\<close>

definition request_layout :: "Client \<Rightarrow> byte \<Rightarrow> byte list \<Rightarrow> byte list" where
  "request_layout c packetType payload =
     [0xFF, 0xFF, 0xFF, 0xFF] @ [packetType]
     @ (if packetType = A2S_PLAYER \<or> packetType = A2S_RULES then bytes32 (challenge c) else [])
     @ payload
     @ (if packetType = A2S_INFO \<and> challenge c \<noteq> - 1 then bytes32 (challenge c) else [])"

subsection \<open>Decoding a response\<close>

text \<open>\<open>data[lo:hi]\<close>, with both bounds checked against the length of the buffer.\<close>

definition slice :: "byte list \<Rightarrow> nat \<Rightarrow> nat \<Rightarrow> byte list result" where
  "slice data lo hi =
     (if length data < hi then Inl (PanicSlice hi (length data))
      else if hi < lo then Inl (PanicSlice lo hi)
      else Inr (take (hi - lo) (drop lo data)))"

text \<open>
  The functions that decode a response take the client and return it with the result,
  since a challenge response writes the cached challenge.
\<close>

definition processSinglePacket :: "Client \<Rightarrow> byte list \<Rightarrow> byte \<Rightarrow> Client \<times> byte list result" where
  "processSinglePacket c data expect =
     (if length data < 1 then (c, Inl (Err ErrShortResponse))
      else case index data 0 of
        Inl f \<Rightarrow> (c, Inl f)
      | Inr responseType \<Rightarrow>
          if responseType = S2C_CHALLENGE then
            (if length data < 5 then (c, Inl (Err ErrShortResponse))
             else case bindR (slice data 1 5) Uint32 of
               Inl f \<Rightarrow> (c, Inl f)
             | Inr v \<Rightarrow> (c\<lparr>challenge := v\<rparr>, Inl (Err ErrChallengeRequired)))
          else if responseType \<noteq> expect then
            (c, Inl (Err (ProtocolError expect responseType)))
          else (c, slice_from data 1))"

definition processSplitPacket :: "Client \<Rightarrow> byte list \<Rightarrow> byte \<Rightarrow> Client \<times> byte list result" where
  "processSplitPacket c data expect =
     (if length data < 9 then (c, Inl (Err ErrShortResponse))
      else
        let payloadStart0 = 4 + 1 + 1;
            payloadStart = (if length data > 8 then payloadStart0 + 2 else payloadStart0)
        in if payloadStart \<ge> length data then (c, Inl (Err ErrInvalidResponse))
           else case slice_from data payloadStart of
             Inl f \<Rightarrow> (c, Inl f)
           | Inr rest \<Rightarrow> processSinglePacket c rest expect)"

definition processResponse :: "Client \<Rightarrow> byte list \<Rightarrow> byte \<Rightarrow> Client \<times> byte list result" where
  "processResponse c data expect =
     (if length data < 4 then (c, Inl (Err ErrShortResponse))
      else case bindR (slice data 0 4) Uint32 of
        Inl f \<Rightarrow> (c, Inl f)
      | Inr header \<Rightarrow>
          if header = Header then
            (case slice_from data 4 of
               Inl f \<Rightarrow> (c, Inl f)
             | Inr rest \<Rightarrow> processSinglePacket c rest expect)
          else if header = SPLIT_FLAG then
            (case slice_from data 4 of
               Inl f \<Rightarrow> (c, Inl f)
             | Inr rest \<Rightarrow> processSplitPacket c rest expect)
          else (c, Inl (Err (UnknownHeader header))))"

subsection \<open>The network\<close>

text \<open>
  What the socket does at one send/receive cycle: the write fails, or the write goes out
  and the read times out, fails, or returns a datagram. The world of a client holds the
  client, the cycles still to come (the behaviour of the server and the network, which the
  client does not choose) and the packets written so far. When nothing is left to come, no
  datagram ever arrives and the read runs into its deadline.
\<close>

datatype net_event = WriteFails | ReadTimeout | ReadFails | Datagram "byte list"

record World =
  client :: Client
  net :: "net_event list"
  sent :: "byte list list"

text \<open>
  \<open>sendRequestRaw\<close>: one packet built and written, one read into a buffer of 4096 bytes
  (a longer datagram is cut to the buffer), and the bytes read decoded.
\<close>

definition sendRequestRaw :: "World \<Rightarrow> byte \<Rightarrow> byte list \<Rightarrow> byte \<Rightarrow> World \<times> byte list result" where
  "sendRequestRaw w packetType payload expectResponse =
     (case buildPacket (client w) packetType payload of
        Inl f \<Rightarrow> (w, Inl f)
      | Inr packet \<Rightarrow>
          (case net w of
             [] \<Rightarrow> (w\<lparr>sent := sent w @ [packet]\<rparr>, Inl (Err ErrTimeout))
           | ev # later \<Rightarrow>
               (case ev of
                  WriteFails \<Rightarrow> (w\<lparr>net := later\<rparr>, Inl (Err WriteError))
                | ReadTimeout \<Rightarrow>
                    (w\<lparr>net := later, sent := sent w @ [packet]\<rparr>, Inl (Err ErrTimeout))
                | ReadFails \<Rightarrow>
                    (w\<lparr>net := later, sent := sent w @ [packet]\<rparr>, Inl (Err ReadError))
                | Datagram d \<Rightarrow>
                    (let buffer = take 4096 d;
                         (c', r) = processResponse (client w) buffer expectResponse
                     in (w\<lparr>client := c', net := later, sent := sent w @ [packet]\<rparr>, r)))))"

text \<open>
  \<open>sendRequest\<close>: the loop \<open>for retry := 0; retry < 3; retry++\<close>. The pause of 100 ms
  before the next attempt has no effect on the values and is left out.
\<close>

function sendRequest_loop ::
  "World \<Rightarrow> nat \<Rightarrow> byte \<Rightarrow> byte list \<Rightarrow> byte \<Rightarrow> World \<times> byte list result" where
  "sendRequest_loop w retry packetType payload expectResponse =
     (if retry < 3 then
        (let (w', r) = sendRequestRaw w packetType payload expectResponse
         in case r of
              Inl f \<Rightarrow>
                if f = Err ErrChallengeRequired
                then sendRequest_loop w' (retry + 1) packetType payload expectResponse
                else (w', Inl f)
            | Inr response \<Rightarrow> (w', Inr response))
      else (w, Inl (Err ErrTooManyRetries)))"
  by pat_completeness auto
termination
  by (relation "measure (\<lambda>(w, retry, packetType, payload, expectResponse). 3 - retry)") auto

definition sendRequest :: "World \<Rightarrow> byte \<Rightarrow> byte list \<Rightarrow> byte \<Rightarrow> World \<times> byte list result" where
  "sendRequest w packetType payload expectResponse =
     sendRequest_loop w 0 packetType payload expectResponse"

section \<open>The parsers\<close>

subsection \<open>The string reader\<close>

text \<open>
  The loop of \<open>readString\<close>: the offset moves on while it is inside the buffer and the
  byte under it is not zero.
\<close>

function scan :: "byte list \<Rightarrow> nat \<Rightarrow> nat" where
  "scan data offset =
     (if offset < length data \<and> data ! offset \<noteq> 0 then scan data (offset + 1) else offset)"
  by pat_completeness auto
termination
  by (relation "measure (\<lambda>(data, offset). length data - offset)") auto

declare scan.simps [simp del]

text \<open>\<open>readString\<close> returns the text and the offset it leaves behind.\<close>

definition readString :: "byte list \<Rightarrow> nat \<Rightarrow> gostring \<times> nat" where
  "readString data offset =
     (if offset \<ge> length data then ([], offset)
      else
        let start = offset;
            offset1 = scan data offset;
            str = take (offset1 - start) (drop start data);
            offset2 = (if offset1 < length data then offset1 + 1 else offset1)
        in (str, offset2))"

subsection \<open>The records\<close>

record ServerInfo =
  Protocol :: byte
  Name :: gostring
  MapName :: gostring
  Folder :: gostring
  Game :: gostring
  AppID :: "16 word"
  Players :: byte
  MaxPlayers :: byte
  Bots :: byte
  ServerType :: byte
  Environment :: byte
  Visibility :: byte
  VAC :: byte
  Version :: gostring
  GamePort :: "16 word"
  SteamID :: "64 word"
  SourceTV_Port :: "16 word"
  SourceTV_Name :: gostring
  Keywords :: "gostring list"
  GameID :: "64 word"
  EDF :: byte

text \<open>\<open>&ServerInfo{}\<close>: every field at its zero value.\<close>

definition zeroServerInfo :: ServerInfo where
  "zeroServerInfo =
     \<lparr>Protocol = 0, Name = [], MapName = [], Folder = [], Game = [], AppID = 0, Players = 0,
      MaxPlayers = 0, Bots = 0, ServerType = 0, Environment = 0, Visibility = 0, VAC = 0,
      Version = [], GamePort = 0, SteamID = 0, SourceTV_Port = 0, SourceTV_Name = [],
      Keywords = [], GameID = 0, EDF = 0\<rparr>"

text \<open>
  \<open>Score\<close> is the \<open>int32\<close> with the bits read, and \<open>Duration\<close> the \<open>float32\<close> with
  the bits read (\<open>math.Float32frombits\<close>); both are kept as the 32 bits.
\<close>

record PlayerInfo =
  Index :: byte
  PlayerName :: gostring
  Score :: "32 word"
  Duration :: "32 word"
  Deaths :: "32 word"
  Money :: "32 word"

definition zeroPlayerInfo :: PlayerInfo where
  "zeroPlayerInfo = \<lparr>Index = 0, PlayerName = [], Score = 0, Duration = 0, Deaths = 0, Money = 0\<rparr>"

record Rule =
  RuleName :: gostring
  RuleValue :: gostring


subsection \<open>INFO, Source format\<close>




subsection \<open>INFO, GoldSource format\<close>

definition parseGoldSourceInfo :: "byte list \<Rightarrow> ServerInfo result" where
  "parseGoldSourceInfo data =
     (let info = zeroServerInfo; offset = 0;
          (s, offset) = readString data offset;
          (s, offset) = readString data offset; info = info\<lparr>Name := s\<rparr>;
          (s, offset) = readString data offset; info = info\<lparr>MapName := s\<rparr>;
          (s, offset) = readString data offset; info = info\<lparr>Folder := s\<rparr>;
          (s, offset) = readString data offset; info = info\<lparr>Game := s\<rparr>
      in if offset + 2 > length data then Inl (Err ErrShortResponse)
         else
           bindR (index data offset) (\<lambda>b.
           let info = info\<lparr>Players := b\<rparr>; offset = offset + 1
           in bindR (index data offset) (\<lambda>b.
           let info = info\<lparr>MaxPlayers := b\<rparr>; offset = offset + 1
           in bindR (index data offset) (\<lambda>b.
           let info = info\<lparr>Protocol := b\<rparr>; offset = offset + 1
           in bindR (index data offset) (\<lambda>b.
           let info = info\<lparr>ServerType := b\<rparr>; offset = offset + 1
           in bindR (index data offset) (\<lambda>b.
           let info = info\<lparr>Environment := b\<rparr>; offset = offset + 1
           in bindR (index data offset) (\<lambda>b.
           let info = info\<lparr>Visibility := b\<rparr>; offset = offset + 1
           in bindR (index data offset) (\<lambda>modFlag.
           let offset = offset + 1;
               offset = (if modFlag = 1 then
                           (let (s, offset) = readString data offset;
                                (s, offset) = readString data offset;
                                offset = offset + 1;
                                offset = offset + 4;
                                offset = offset + 4;
                                offset = offset + 1;
                                offset = offset + 1
                            in offset)
                         else offset)
           in bindR (index data offset) (\<lambda>b.
           let info = info\<lparr>VAC := b\<rparr>; offset = offset + 1
           in if offset < length data
              then bindR (index data offset) (\<lambda>b. Inr (info\<lparr>Bots := b\<rparr>))
              else Inr info)))))))))"

subsection \<open>PLAYER and RULES\<close>

text \<open>
  The loop \<open>for i := 0; i < numPlayers && offset < len(data); i++\<close>; it returns the
  players appended and the offset reached, or the error of the entry that failed.
\<close>

function players_loop ::
  "byte list \<Rightarrow> nat \<Rightarrow> nat \<Rightarrow> nat \<Rightarrow> PlayerInfo list \<Rightarrow> (PlayerInfo list \<times> nat) result" where
  "players_loop data numPlayers i offset players =
     (if i < numPlayers \<and> offset < length data then
        bindR (index data offset) (\<lambda>b.
        let player = zeroPlayerInfo\<lparr>Index := b\<rparr>; offset = offset + 1;
            (s, offset) = readString data offset; player = player\<lparr>PlayerName := s\<rparr>
        in if offset + 4 > length data then Inl (Err ErrShortResponse)
           else
             bindR (bindR (slice_from data offset) Uint32) (\<lambda>v.
             let player = player\<lparr>Score := v\<rparr>; offset = offset + 4
             in if offset + 4 > length data then Inl (Err ErrShortResponse)
                else
                  bindR (bindR (slice_from data offset) Uint32) (\<lambda>v.
                  let player = player\<lparr>Duration := v\<rparr>; offset = offset + 4
                  in players_loop data numPlayers (i + 1) offset (players @ [player]))))
      else Inr (players, offset))"
  by pat_completeness auto
termination
  by (relation "measure (\<lambda>(data, numPlayers, i, offset, players). numPlayers - i)") auto

declare players_loop.simps [simp del]

definition parsePlayersResponse :: "byte list \<Rightarrow> PlayerInfo list result" where
  "parsePlayersResponse data =
     (if length data < 1 then Inl (Err ErrShortResponse)
      else
        let offset = 0
        in bindR (index data offset) (\<lambda>b.
           let numPlayers = unat b; offset = offset + 1; players = []
           in bindR (players_loop data numPlayers 0 offset players)
                (\<lambda>(players, offset). Inr players)))"

function rules_loop :: "byte list \<Rightarrow> nat \<Rightarrow> nat \<Rightarrow> nat \<Rightarrow> Rule list \<Rightarrow> Rule list \<times> nat" where
  "rules_loop data numRules i offset rules =
     (if i < numRules \<and> offset < length data then
        (let (name, offset) = readString data offset;
             (val, offset) = readString data offset;
             rule = \<lparr>RuleName = name, RuleValue = val\<rparr>
         in rules_loop data numRules (i + 1) offset (rules @ [rule]))
      else (rules, offset))"
  by pat_completeness auto
termination
  by (relation "measure (\<lambda>(data, numRules, i, offset, rules). numRules - i)") auto

declare rules_loop.simps [simp del]

definition parseRulesResponse :: "byte list \<Rightarrow> Rule list result" where
  "parseRulesResponse data =
     (if length data < 2 then Inl (Err ErrShortResponse)
      else
        let offset = 0
        in bindR (bindR (slice_from data offset) Uint16) (\<lambda>v.
           let numRules = unat v; offset = offset + 2; rules = []
           in Inr (fst (rules_loop data numRules 0 offset rules))))"

section \<open>The public operations\<close>






definition GetPlayers :: "World \<Rightarrow> World \<times> PlayerInfo list result" where
  "GetPlayers w =
     (if \<not> IsConnected (client w) then (w, Inl (Err ErrNotConnected))
      else
        let challengeReq = [0xFF, 0xFF, 0xFF, 0xFF];
            (w1, r1) = sendRequest w A2S_PLAYER challengeReq S2C_CHALLENGE;
            after_probe =
              (if challenge (client w1) = - 1 then (w1, Inl (Err ChallengeNotReceived))
               else case PutUint32 (replicate 4 0) 0 (challenge (client w1)) of
                 Inl f \<Rightarrow> (w1, Inl f)
               | Inr challengeBytes \<Rightarrow>
                   (let (w2, r2) = sendRequest w1 A2S_PLAYER challengeBytes S2A_PLAYER
                    in case r2 of
                         Inl f \<Rightarrow> (w2, Inl f)
                       | Inr response \<Rightarrow> (w2, parsePlayersResponse response)))
        in case r1 of
             Inl f \<Rightarrow> if f \<noteq> Err ErrChallengeRequired then (w1, Inl f) else after_probe
           | Inr response \<Rightarrow> after_probe)"

definition GetRules :: "World \<Rightarrow> World \<times> Rule list result" where
  "GetRules w =
     (if \<not> IsConnected (client w) then (w, Inl (Err ErrNotConnected))
      else
        let challengeReq = [0xFF, 0xFF, 0xFF, 0xFF];
            (w1, r1) = sendRequest w A2S_RULES challengeReq S2C_CHALLENGE;
            after_probe =
              (if challenge (client w1) = - 1 then (w1, Inl (Err ChallengeNotReceived))
               else case PutUint32 (replicate 4 0) 0 (challenge (client w1)) of
                 Inl f \<Rightarrow> (w1, Inl f)
               | Inr challengeBytes \<Rightarrow>
                   (let (w2, r2) = sendRequest w1 A2S_RULES challengeBytes S2A_RULES
                    in case r2 of
                         Inl f \<Rightarrow> (w2, Inl f)
                       | Inr response \<Rightarrow> (w2, parseRulesResponse response)))
        in case r1 of
             Inl f \<Rightarrow> if f \<noteq> Err ErrChallengeRequired then (w1, Inl f) else after_probe
           | Inr response \<Rightarrow> after_probe)"



section \<open>Notions for the statements and the proofs\<close>







text \<open>
  One entry of a PLAYER payload and one of a RULES payload, read at an offset: the body of
  the loops, which the loops repeat (lemmas \<open>players_loop_unfold\<close> and
  \<open>rules_loop_unfold\<close>).
\<close>

definition player_at :: "byte list \<Rightarrow> nat \<Rightarrow> (PlayerInfo \<times> nat) result" where
  "player_at data offset =
     bindR (index data offset) (\<lambda>b.
     let player = zeroPlayerInfo\<lparr>Index := b\<rparr>; offset = offset + 1;
         (s, offset) = readString data offset; player = player\<lparr>PlayerName := s\<rparr>
     in if offset + 4 > length data then Inl (Err ErrShortResponse)
        else
          bindR (bindR (slice_from data offset) Uint32) (\<lambda>v.
          let player = player\<lparr>Score := v\<rparr>; offset = offset + 4
          in if offset + 4 > length data then Inl (Err ErrShortResponse)
             else
               bindR (bindR (slice_from data offset) Uint32) (\<lambda>v.
               let player = player\<lparr>Duration := v\<rparr>; offset = offset + 4
               in Inr (player, offset))))"

definition rule_at :: "byte list \<Rightarrow> nat \<Rightarrow> Rule \<times> nat" where
  "rule_at data offset =
     (let (name, offset) = readString data offset;
          (val, offset) = readString data offset
      in (\<lparr>RuleName = name, RuleValue = val\<rparr>, offset))"

text \<open>
  \<open>read_in_order rd len off xs off'\<close>: the entries \<open>xs\<close> are what the reader \<open>rd\<close>
  reads one after the other from the offset \<open>off\<close>, each entry starting inside the
  buffer of length \<open>len\<close> where the one before it ended, and the last one ending at
  \<open>off'\<close>.
\<close>

fun read_in_order :: "(nat \<Rightarrow> ('a \<times> nat) result) \<Rightarrow> nat \<Rightarrow> nat \<Rightarrow> 'a list \<Rightarrow> nat \<Rightarrow> bool" where
  "read_in_order rd len off [] off' = (off' = off)"
| "read_in_order rd len off (x # xs) off' =
     (off < len \<and>
      (case rd off of
         Inl f \<Rightarrow> False
       | Inr (y, mid) \<Rightarrow> y = x \<and> off < mid \<and> read_in_order rd len mid xs off'))"

text \<open>
  A rule as the server writes it, name and value each closed by a zero byte; the name and
  the value of a rule on the wire hold no zero byte.
\<close>

definition encode_rule :: "Rule \<Rightarrow> byte list" where
  "encode_rule r = RuleName r @ [0] @ RuleValue r @ [0]"

definition wire_rule :: "Rule \<Rightarrow> bool" where
  "wire_rule r = (0 \<notin> set (RuleName r) \<and> 0 \<notin> set (RuleValue r))"

text \<open>
  Payloads for concrete runs: two rules, \<open>mode = ctf\<close> and \<open>ffa = 0\<close>; and a player
  list that announces three players and holds one, \<open>A\<close> in slot 7 with score 1.
\<close>

definition example_rules :: "byte list" where
  "example_rules =
     [0x02, 0x00, 0x6D, 0x6F, 0x64, 0x65, 0, 0x63, 0x74, 0x66, 0, 0x66, 0x66, 0x61, 0, 0x30, 0]"

definition example_players :: "byte list" where
  "example_players = [3, 7, 0x41, 0, 1, 0, 0, 0, 0, 0, 0x80, 0x3F]"



text \<open>
  For the proofs: a decoder that, for every client and expected type, either stores the
  challenge \<open>x\<close> and answers \<open>ErrChallengeRequired\<close>, or leaves the client alone and
  answers something else; and a world whose challenge is that of an earlier world or one
  offered to it, with nothing offered that was not offered before.
\<close>

definition decodes_as :: "(Client \<Rightarrow> byte \<Rightarrow> Client \<times> byte list result) \<Rightarrow> 32 word option \<Rightarrow> bool" where
  "decodes_as f v =
     (\<forall>c e. f c e = (case v of
                       Some x \<Rightarrow> (c\<lparr>challenge := x\<rparr>, Inl (Err ErrChallengeRequired))
                     | None \<Rightarrow> (c, snd (f c e)))
          \<and> (v = None \<longrightarrow> snd (f c e) \<noteq> Inl (Err ErrChallengeRequired)))"


text \<open>
  A world for concrete runs: a fresh client after a successful \<open>Connect\<close>, nothing
  written yet, and the given cycles to come.
\<close>

definition connected_world :: "net_event list \<Rightarrow> World" where
  "connected_world evs =
     \<lparr>client = (NewClient 5)\<lparr>conn := True, connected := True\<rparr>, net = evs, sent = []\<rparr>"


section \<open>The result type\<close>

lemma bindR_simps [simp]:
  "bindR (Inl e) f = Inl e"
  "bindR (Inr v) f = f v"
  by (simp_all add: bindR_def)

section \<open>Little-endian bytes\<close>

lemma length_bytes32 [simp]: "length (bytes32 v) = 4"
  by (simp add: bytes32_def)

lemma bytes32_Header: "bytes32 Header = [0xFF, 0xFF, 0xFF, 0xFF]"
  by (simp add: bytes32_def Header_def)

text \<open>Reading back the four bytes written gives the value: the bytes are little-endian.\<close>

lemma le32_bytes32:
  "le32 (ucast v) (ucast (drop_bit 8 v)) (ucast (drop_bit 16 v)) (ucast (drop_bit 24 v)) = v"
  unfolding le32_def
proof (rule bit_word_eqI)
  fix n assume n: "n < LENGTH(32)"
  have s: "8 + (n - 8) = n" if "8 \<le> n" using that by simp
  have t: "16 + (n - 16) = n" if "16 \<le> n" using that by simp
  have u: "24 + (n - 24) = n" if "24 \<le> n" using that by simp
  consider "n < 8" | "8 \<le> n" "n < 16" | "16 \<le> n" "n < 24" | "24 \<le> n" "n < 32"
    using n by fastforce
  then show "bit (ucast (ucast v :: byte) OR push_bit 8 (ucast (ucast (drop_bit 8 v) :: byte))
      OR push_bit 16 (ucast (ucast (drop_bit 16 v) :: byte))
      OR push_bit 24 (ucast (ucast (drop_bit 24 v) :: byte)) :: 32 word) n = bit v n"
    by cases (auto simp: bit_simps s t u)
qed

lemma Uint32_bytes32: "Uint32 (bytes32 v) = Inr v"
  by (simp add: Uint32_def bytes32_def le32_bytes32)

lemma Uint32_take4:
  "4 \<le> length data \<Longrightarrow>
   bindR (slice data 0 4) Uint32 = Inr (le32 (data ! 0) (data ! 1) (data ! 2) (data ! 3))"
  by (simp add: slice_def Uint32_def)

lemma Uint32_slice15:
  "5 \<le> length data \<Longrightarrow>
   bindR (slice data (Suc 0) 5) Uint32 = Inr (le32 (data ! 1) (data ! 2) (data ! 3) (data ! 4))"
  by (simp add: slice_def Uint32_def eval_nat_numeral)

section \<open>The request packet\<close>

text \<open>
  Writing into the part of a fresh buffer that is still zero, behind the bytes \<open>pre\<close>
  already written.
\<close>

lemma PutUint32_fresh:
  "off = length pre \<Longrightarrow> 4 \<le> k \<Longrightarrow>
   PutUint32 (pre @ replicate k 0) off v = Inr ((pre @ bytes32 v) @ replicate (k - 4) 0)"
  by (simp add: PutUint32_def)

lemma store_fresh:
  "off = length pre \<Longrightarrow> 1 \<le> k \<Longrightarrow>
   store (pre @ replicate k 0) off x = Inr ((pre @ [x]) @ replicate (k - 1) 0)"
  by (cases k) (simp_all add: store_def list_update_append)

lemma copy_at_fresh:
  "off = length pre \<Longrightarrow> length src \<le> k \<Longrightarrow>
   copy_at (pre @ replicate k 0) off src = Inr ((pre @ src) @ replicate (k - length src) 0)"
  by (simp add: copy_at_def)

lemma buildPacket_request_layout: "buildPacket c t p = Inr (request_layout c t p)"
proof -
  define atB where "atB = (t = A2S_PLAYER \<or> t = A2S_RULES)"
  define atE where "atE = (t = A2S_INFO \<and> challenge c \<noteq> - 1)"
  define k1 where "k1 = (if atB then 4 else 0) + length p + (if atE then 4 else (0::nat))"
  define hdr :: "byte list" where "hdr = [0xFF, 0xFF, 0xFF, 0xFF]"
  have size: "(if atE then (if atB then 4 + 1 + 4 else 4 + 1) + length p + 4
               else (if atB then 4 + 1 + 4 else 4 + 1) + length p) = 5 + k1"
    by (simp add: k1_def)
  have s1: "PutUint32 (replicate (5 + k1) 0) 0 Header = Inr (hdr @ replicate (1 + k1) 0)"
    using PutUint32_fresh [of 0 "[]" "5 + k1" Header] by (simp add: bytes32_Header hdr_def)
  have s2: "store (hdr @ replicate (1 + k1) 0) 4 t = Inr ((hdr @ [t]) @ replicate k1 0)"
    using store_fresh [of 4 hdr "1 + k1" t] by (simp add: hdr_def)
  show ?thesis
  proof (cases atB)
    case True
    then have notE: "\<not> atE"
      by (auto simp: atB_def atE_def A2S_PLAYER_def A2S_RULES_def A2S_INFO_def)
    have k1: "k1 = 4 + length p" using True notE by (simp add: k1_def)
    have s3: "PutUint32 ((hdr @ [t]) @ replicate k1 0) 5 (challenge c)
              = Inr (((hdr @ [t]) @ bytes32 (challenge c)) @ replicate (length p) 0)"
      using PutUint32_fresh [of 5 "hdr @ [t]" k1 "challenge c"] by (simp add: hdr_def k1)
    have s4: "copy_at (((hdr @ [t]) @ bytes32 (challenge c)) @ replicate (length p) 0) 9 p
              = Inr ((((hdr @ [t]) @ bytes32 (challenge c)) @ p) @ replicate 0 0)"
      using copy_at_fresh [of 9 "(hdr @ [t]) @ bytes32 (challenge c)" p "length p"]
      by (simp add: hdr_def)
    show ?thesis
      unfolding buildPacket_def Let_def atB_def [symmetric] atE_def [symmetric] size
      using True notE s1 s2 s3 s4
      by (simp add: request_layout_def atB_def [symmetric] atE_def [symmetric] hdr_def)
  next
    case False
    have s4: "copy_at ((hdr @ [t]) @ replicate k1 0) 5 p
              = Inr (((hdr @ [t]) @ p) @ replicate (k1 - length p) 0)"
      using copy_at_fresh [of 5 "hdr @ [t]" p k1] by (simp add: hdr_def k1_def)
    show ?thesis
    proof (cases atE)
      case True
      have k1: "k1 = length p + 4" using True False by (simp add: k1_def)
      have s5: "PutUint32 (((hdr @ [t]) @ p) @ replicate (k1 - length p) 0) (5 + length p)
                  (challenge c)
                = Inr ((((hdr @ [t]) @ p) @ bytes32 (challenge c)) @ replicate 0 0)"
        using PutUint32_fresh [of "5 + length p" "(hdr @ [t]) @ p" 4 "challenge c"]
        by (simp add: hdr_def k1)
      show ?thesis
        unfolding buildPacket_def Let_def atB_def [symmetric] atE_def [symmetric] size
        using True False s1 s2 s4 s5
        by (simp add: request_layout_def atB_def [symmetric] atE_def [symmetric] hdr_def)
    next
      case notE: False
      have k1: "k1 = length p" using notE False by (simp add: k1_def)
      show ?thesis
        unfolding buildPacket_def Let_def atB_def [symmetric] atE_def [symmetric] size
        using notE False s1 s2 s4
        by (simp add: request_layout_def atB_def [symmetric] atE_def [symmetric] hdr_def k1)
    qed
  qed
qed

text \<open>
  C4. Every packet \<open>buildPacket\<close> builds is the header \<open>FF FF FF FF\<close>, the type byte,
  for PLAYER and RULES the four bytes of the cached challenge, the payload as it is, and
  for INFO with a challenge other than \<open>-1\<close> the four bytes of the challenge at the end;
  an INFO request with the challenge \<open>-1\<close> carries no challenge bytes. The four bytes are
  the little-endian bytes of the challenge: read back they give the challenge. Building
  never panics.
\<close>

theorem buildPacket_layout:
  "buildPacket c t p =
     Inr ([0xFF, 0xFF, 0xFF, 0xFF] @ [t]
          @ (if t = A2S_PLAYER \<or> t = A2S_RULES then bytes32 (challenge c) else [])
          @ p
          @ (if t = A2S_INFO \<and> challenge c \<noteq> - 1 then bytes32 (challenge c) else []))
   \<and> Uint32 (bytes32 (challenge c)) = Inr (challenge c)"
  by (simp add: buildPacket_request_layout request_layout_def Uint32_bytes32)

section \<open>Decoding\<close>

text \<open>
  C2. A single packet whose first byte is the challenge type \<open>0x41\<close>: with at least five
  bytes the next four, read little-endian, become the cached challenge and the result is
  \<open>ErrChallengeRequired\<close>, whatever response type the caller expects; with fewer than
  five bytes the result is \<open>ErrShortResponse\<close> and the client is unchanged.
\<close>

theorem processSinglePacket_challenge:
  assumes "data \<noteq> []" and "data ! 0 = S2C_CHALLENGE"
  shows "S2C_CHALLENGE = 0x41
       \<and> (5 \<le> length data \<longrightarrow>
            processSinglePacket c data expect =
              (c\<lparr>challenge := le32 (data ! 1) (data ! 2) (data ! 3) (data ! 4)\<rparr>,
               Inl (Err ErrChallengeRequired)))
       \<and> (length data < 5 \<longrightarrow>
            processSinglePacket c data expect = (c, Inl (Err ErrShortResponse)))"
proof -
  have len: "\<not> length data < 1" using assms(1) by (cases data) simp_all
  have idx: "index data 0 = Inr S2C_CHALLENGE" using assms len by (simp add: index_def)
  show ?thesis
    unfolding processSinglePacket_def using len idx
    by (simp add: Uint32_slice15) (simp add: S2C_CHALLENGE_def)
qed

theorem processSinglePacket_challenge_witness:
  "processSinglePacket (NewClient 5) [0x41, 4, 3, 2, 1] S2A_PLAYER =
     ((NewClient 5)\<lparr>challenge := 0x01020304\<rparr>, Inl (Err ErrChallengeRequired))
   \<and> processSinglePacket (NewClient 5) [0x41, 4, 3, 2] S2A_PLAYER =
     (NewClient 5, Inl (Err ErrShortResponse))"
  using processSinglePacket_challenge [of "[0x41, 4, 3, 2, 1]" "NewClient 5" S2A_PLAYER]
    processSinglePacket_challenge [of "[0x41, 4, 3, 2]" "NewClient 5" S2A_PLAYER]
  by (simp add: S2C_CHALLENGE_def le32_def)

text \<open>
  C3. A datagram whose header, read little-endian, is the split flag \<open>0xFFFFFFFE\<close>: with
  fewer than 9 bytes after the header the result is \<open>ErrShortResponse\<close>; otherwise the
  payload starts at 6, at 8 when more than 8 bytes remain; a start at or beyond the
  remaining length gives \<open>ErrInvalidResponse\<close>, and otherwise the bytes from the start
  are decoded as a single packet.
\<close>

theorem processResponse_split:
  assumes "4 \<le> length data"
    and "le32 (data ! 0) (data ! 1) (data ! 2) (data ! 3) = SPLIT_FLAG"
  shows "processResponse c data expect =
     (let rest = drop 4 data
      in if length rest < 9 then (c, Inl (Err ErrShortResponse))
         else
           let start = (if length rest > 8 then 8 else 6)
           in if start \<ge> length rest then (c, Inl (Err ErrInvalidResponse))
              else processSinglePacket c (drop start rest) expect)"
  using assms
  by (simp add: processResponse_def Uint32_take4 slice_from_def processSplitPacket_def
      Header_def SPLIT_FLAG_def Let_def)

theorem processResponse_split_witness:
  "processResponse (NewClient 5)
       [0xFE, 0xFF, 0xFF, 0xFF, 1, 2, 3, 4, 5, 6, 7, 8, 0x44, 9] S2A_PLAYER
     = (NewClient 5, Inr [9])
   \<and> processResponse (NewClient 5)
       [0xFE, 0xFF, 0xFF, 0xFF, 1, 2, 3, 4, 5, 6, 7, 8] S2A_PLAYER
     = (NewClient 5, Inl (Err ErrShortResponse))"
  using processResponse_split
      [of "[0xFE, 0xFF, 0xFF, 0xFF, 1, 2, 3, 4, 5, 6, 7, 8, 0x44, 9]" "NewClient 5" S2A_PLAYER]
    processResponse_split
      [of "[0xFE, 0xFF, 0xFF, 0xFF, 1, 2, 3, 4, 5, 6, 7, 8]" "NewClient 5" S2A_PLAYER]
  by (simp add: le32_def SPLIT_FLAG_def processSinglePacket_def index_def S2A_PLAYER_def
      S2C_CHALLENGE_def slice_from_def)

text \<open>
  With 9 or more bytes after the header the start is always 8 and lies inside the
  buffer, so the two tests after the first never decide anything.
\<close>

lemma processResponse_split_long:
  assumes "13 \<le> length data"
    and "le32 (data ! 0) (data ! 1) (data ! 2) (data ! 3) = SPLIT_FLAG"
  shows "processResponse c data expect = processSinglePacket c (drop 12 data) expect"
proof -
  have "\<not> length data - 4 < 9" "\<not> length data - 4 \<le> 8" using assms(1) by arith+
  then show ?thesis
    using assms
    by (simp add: processResponse_def Uint32_take4 slice_from_def processSplitPacket_def
        Header_def SPLIT_FLAG_def Let_def)
qed

section \<open>The retry wrapper\<close>

text \<open>
  C5. \<open>sendRequest\<close> makes at most three send/receive cycles. A cycle that gives
  \<open>ErrChallengeRequired\<close> is followed by the next one; the first cycle that gives
  anything else, a payload or another error, ends the call with that result; three
  cycles that all give \<open>ErrChallengeRequired\<close> end it with \<open>ErrTooManyRetries\<close>.
\<close>

theorem sendRequest_retry:
  "sendRequest w t p e =
     (let (w1, r1) = sendRequestRaw w t p e
      in if r1 \<noteq> Inl (Err ErrChallengeRequired) then (w1, r1)
         else
           let (w2, r2) = sendRequestRaw w1 t p e
           in if r2 \<noteq> Inl (Err ErrChallengeRequired) then (w2, r2)
              else
                let (w3, r3) = sendRequestRaw w2 t p e
                in if r3 \<noteq> Inl (Err ErrChallengeRequired) then (w3, r3)
                   else (w3, Inl (Err ErrTooManyRetries)))"
  by (auto simp: sendRequest_def Let_def split: prod.splits sum.splits)

section \<open>The challenge probe\<close>

text \<open>
  A response can never satisfy a caller that expects the challenge type: a packet of that
  type gives \<open>ErrChallengeRequired\<close> or \<open>ErrShortResponse\<close>, a packet of another type
  a \<open>ProtocolError\<close>.
\<close>

lemma processSinglePacket_expect_challenge:
  "snd (processSinglePacket c data S2C_CHALLENGE) \<noteq> Inr x"
  by (auto simp: processSinglePacket_def index_def bindR_def split: sum.splits)

lemma processSplitPacket_expect_challenge:
  "snd (processSplitPacket c data S2C_CHALLENGE) \<noteq> Inr x"
  by (auto simp: processSplitPacket_def Let_def processSinglePacket_expect_challenge
      split: sum.splits)

lemma processResponse_expect_challenge:
  "snd (processResponse c data S2C_CHALLENGE) \<noteq> Inr x"
  by (auto simp: processResponse_def processSinglePacket_expect_challenge
      processSplitPacket_expect_challenge split: sum.splits)

lemma sendRequestRaw_expect_challenge:
  "snd (sendRequestRaw w t p S2C_CHALLENGE) \<noteq> Inr x"
proof -
  have "r \<noteq> Inr x" if "processResponse (client w) d S2C_CHALLENGE = (c', r)" for d c' r
    using processResponse_expect_challenge [of "client w" d x] that by simp
  then show ?thesis
    by (auto simp: sendRequestRaw_def Let_def
        split: sum.splits list.splits net_event.splits prod.splits)
qed

text \<open>The retry wrapper never hands \<open>ErrChallengeRequired\<close> to its caller.\<close>

lemma sendRequest_loop_never_challenge_required:
  "snd (sendRequest_loop w retry t p e) \<noteq> Inl (Err ErrChallengeRequired)"
proof (induction w retry t p e rule: sendRequest_loop.induct)
  case (1 w retry t p e)
  show ?case
  proof (cases "retry < 3")
    case False
    then show ?thesis by simp
  next
    case True
    obtain w' r where raw: "sendRequestRaw w t p e = (w', r)"
      by (cases "sendRequestRaw w t p e")
    show ?thesis
    proof (cases r)
      case (Inr v)
      with True raw show ?thesis by simp
    next
      case (Inl f)
      show ?thesis
      proof (cases "f = Err ErrChallengeRequired")
        case True
        with \<open>retry < 3\<close> raw Inl "1.IH" [OF \<open>retry < 3\<close> raw [symmetric] refl Inl True]
        show ?thesis by simp
      next
        case False
        with \<open>retry < 3\<close> raw Inl show ?thesis by simp
      qed
    qed
  qed
qed

lemma sendRequest_loop_expect_challenge:
  "snd (sendRequest_loop w retry t p S2C_CHALLENGE) \<noteq> Inr x"
proof (induction w retry t p "S2C_CHALLENGE" rule: sendRequest_loop.induct)
  case (1 w retry t p)
  show ?case
  proof (cases "retry < 3")
    case False
    then show ?thesis by simp
  next
    case True
    obtain w' r where raw: "sendRequestRaw w t p S2C_CHALLENGE = (w', r)"
      by (cases "sendRequestRaw w t p S2C_CHALLENGE")
    show ?thesis
    proof (cases r)
      case (Inr v)
      with raw sendRequestRaw_expect_challenge [of w t p v] show ?thesis by simp
    next
      case (Inl f)
      show ?thesis
      proof (cases "f = Err ErrChallengeRequired")
        case True
        with \<open>retry < 3\<close> raw Inl "1.hyps" [OF \<open>retry < 3\<close> raw [symmetric] refl Inl True]
        show ?thesis by simp
      next
        case False
        with \<open>retry < 3\<close> raw Inl show ?thesis by simp
      qed
    qed
  qed
qed

text \<open>
  So the probe of \<open>GetPlayers\<close> and \<open>GetRules\<close>, which goes through the retry wrapper
  and expects the challenge type, always ends in an error other than
  \<open>ErrChallengeRequired\<close>.
\<close>

lemma probe_fails:
  "\<exists>w1 f. sendRequest w t p S2C_CHALLENGE = (w1, Inl f) \<and> f \<noteq> Err ErrChallengeRequired"
proof -
  obtain w1 r where s: "sendRequest w t p S2C_CHALLENGE = (w1, r)"
    by (cases "sendRequest w t p S2C_CHALLENGE")
  have "r \<noteq> Inl (Err ErrChallengeRequired)"
    using sendRequest_loop_never_challenge_required [of w 0 t p S2C_CHALLENGE] s
    by (simp add: sendRequest_def)
  moreover have "\<And>x. r \<noteq> Inr x"
    using sendRequest_loop_expect_challenge [of w 0 t p] s by (simp add: sendRequest_def)
  ultimately show ?thesis using s by (cases r) auto
qed

text \<open>
  Every call of \<open>GetPlayers\<close> and of \<open>GetRules\<close> on a connected client ends with the
  error of its probe; neither ever returns a list, and neither reaches the test of the
  challenge against \<open>-1\<close>.
\<close>

lemma GetPlayers_stops_at_probe:
  "IsConnected (client w) \<Longrightarrow>
   \<exists>f. GetPlayers w =
          (fst (sendRequest w A2S_PLAYER [0xFF, 0xFF, 0xFF, 0xFF] S2C_CHALLENGE), Inl f)
      \<and> f \<noteq> Err ErrChallengeRequired
      \<and> snd (sendRequest w A2S_PLAYER [0xFF, 0xFF, 0xFF, 0xFF] S2C_CHALLENGE) = Inl f"
  using probe_fails [of w A2S_PLAYER "[0xFF, 0xFF, 0xFF, 0xFF]"]
  by (auto simp: GetPlayers_def Let_def)

lemma GetRules_stops_at_probe:
  "IsConnected (client w) \<Longrightarrow>
   \<exists>f. GetRules w =
          (fst (sendRequest w A2S_RULES [0xFF, 0xFF, 0xFF, 0xFF] S2C_CHALLENGE), Inl f)
      \<and> f \<noteq> Err ErrChallengeRequired
      \<and> snd (sendRequest w A2S_RULES [0xFF, 0xFF, 0xFF, 0xFF] S2C_CHALLENGE) = Inl f"
  using probe_fails [of w A2S_RULES "[0xFF, 0xFF, 0xFF, 0xFF]"]
  by (auto simp: GetRules_def Let_def)

lemma GetPlayers_never_succeeds: "snd (GetPlayers w) \<noteq> Inr players"
  using GetPlayers_stops_at_probe [of w]
  by (cases "IsConnected (client w)") (auto simp: GetPlayers_def)

lemma GetRules_never_succeeds: "snd (GetRules w) \<noteq> Inr rules"
  using GetRules_stops_at_probe [of w]
  by (cases "IsConnected (client w)") (auto simp: GetRules_def)

text \<open>
  C1. A connected client with no challenge asks for the players. The server answers the
  probe with the challenge \<open>0x01020304\<close> and the next request with a player list of no
  players. The first response is decoded as \<open>ErrChallengeRequired\<close> and the challenge
  is cached, but the call does not go on to the request: the retry wrapper sends the
  probe again, the player list is not of the challenge type, and the call ends with a
  \<open>ProtocolError\<close>. With three challenge responses in a row it ends with
  \<open>ErrTooManyRetries\<close>. \<open>GetRules\<close> does the same.
\<close>

theorem GetPlayers_GetRules_probe_aborts:
  "GetPlayers (connected_world
       [Datagram [0xFF, 0xFF, 0xFF, 0xFF, 0x41, 4, 3, 2, 1],
        Datagram [0xFF, 0xFF, 0xFF, 0xFF, 0x44, 0]]) =
     (\<lparr>client = (NewClient 5)\<lparr>conn := True, connected := True, challenge := 0x01020304\<rparr>,
       net = [],
       sent = [[0xFF, 0xFF, 0xFF, 0xFF, 0x55, 0xFF, 0xFF, 0xFF, 0xFF, 0xFF, 0xFF, 0xFF, 0xFF],
               [0xFF, 0xFF, 0xFF, 0xFF, 0x55, 4, 3, 2, 1, 0xFF, 0xFF, 0xFF, 0xFF]]\<rparr>,
      Inl (Err (ProtocolError 0x41 0x44)))
   \<and> GetRules (connected_world
       [Datagram [0xFF, 0xFF, 0xFF, 0xFF, 0x41, 4, 3, 2, 1],
        Datagram [0xFF, 0xFF, 0xFF, 0xFF, 0x45, 0, 0]]) =
     (\<lparr>client = (NewClient 5)\<lparr>conn := True, connected := True, challenge := 0x01020304\<rparr>,
       net = [],
       sent = [[0xFF, 0xFF, 0xFF, 0xFF, 0x56, 0xFF, 0xFF, 0xFF, 0xFF, 0xFF, 0xFF, 0xFF, 0xFF],
               [0xFF, 0xFF, 0xFF, 0xFF, 0x56, 4, 3, 2, 1, 0xFF, 0xFF, 0xFF, 0xFF]]\<rparr>,
      Inl (Err (ProtocolError 0x41 0x45)))
   \<and> snd (GetPlayers (connected_world
       [Datagram [0xFF, 0xFF, 0xFF, 0xFF, 0x41, 4, 3, 2, 1],
        Datagram [0xFF, 0xFF, 0xFF, 0xFF, 0x41, 4, 3, 2, 1],
        Datagram [0xFF, 0xFF, 0xFF, 0xFF, 0x41, 4, 3, 2, 1],
        Datagram [0xFF, 0xFF, 0xFF, 0xFF, 0x44, 0]])) = Inl (Err ErrTooManyRetries)"
  by code_simp

section \<open>The GoldSource parser\<close>

text \<open>
  C8. Truncated GoldSource payloads on which the parser panics with an index out of
  range. Each starts with five empty strings and the two bytes of the player counts, so
  it passes the only length test (one byte shorter, the result is \<open>ErrShortResponse\<close>);
  the buffer then ends before the protocol byte, the server type, the environment, the
  visibility, the mod flag or the VAC byte, and the read of that byte is the panic. In
  the last payload the mod flag is 1: the skips move the offset to 24 without a test, and
  the read of the VAC byte panics in a buffer of 13 bytes.
\<close>

theorem parseGoldSourceInfo_panics:
  "parseGoldSourceInfo [0, 0, 0, 0, 0, 1] = Inl (Err ErrShortResponse)
   \<and> parseGoldSourceInfo [0, 0, 0, 0, 0, 1, 2] = Inl (PanicIndex 7 7)
   \<and> parseGoldSourceInfo [0, 0, 0, 0, 0, 1, 2, 3] = Inl (PanicIndex 8 8)
   \<and> parseGoldSourceInfo [0, 0, 0, 0, 0, 1, 2, 3, 4] = Inl (PanicIndex 9 9)
   \<and> parseGoldSourceInfo [0, 0, 0, 0, 0, 1, 2, 3, 4, 5] = Inl (PanicIndex 10 10)
   \<and> parseGoldSourceInfo [0, 0, 0, 0, 0, 1, 2, 3, 4, 5, 6] = Inl (PanicIndex 11 11)
   \<and> parseGoldSourceInfo [0, 0, 0, 0, 0, 1, 2, 3, 4, 5, 6, 0] = Inl (PanicIndex 12 12)
   \<and> parseGoldSourceInfo [0, 0, 0, 0, 0, 1, 2, 3, 4, 5, 6, 1, 7] = Inl (PanicIndex 24 13)"
  by code_simp

section \<open>The string reader and checked reads\<close>

text \<open>The reader never moves the offset backwards and never beyond the buffer.\<close>

lemma scan_le: "offset \<le> scan data offset"
  by (induction data offset rule: scan.induct) (subst scan.simps, auto)


lemma readString_mono: "offset \<le> snd (readString data offset)"
  using scan_le [of offset data] by (simp add: readString_def Let_def)


lemma index_in: "offset < length data \<Longrightarrow> index data offset = Inr (data ! offset)"
  by (simp add: index_def)



lemma readString_progress:
  assumes "offset < length data"
  shows "offset < snd (readString data offset)"
proof -
  have "offset \<le> scan data offset" by (rule scan_le)
  then show ?thesis using assms by (auto simp: readString_def Let_def)
qed

lemma readString_end: "length data \<le> offset \<Longrightarrow> readString data offset = ([], offset)"
  by (simp add: readString_def)

section \<open>The Source INFO parser\<close>










section \<open>The PLAYER and RULES parsers\<close>

lemma players_loop_unfold:
  "players_loop data n i off ps =
     (if i < n \<and> off < length data
      then bindR (player_at data off) (\<lambda>(p, off'). players_loop data n (i + 1) off' (ps @ [p]))
      else Inr (ps, off))"
  by (subst players_loop.simps)
    (auto simp: player_at_def Let_def split_beta index_def bindR_def split: sum.splits)

lemma rules_loop_unfold:
  "rules_loop data n i off rs =
     (if i < n \<and> off < length data
      then (let (r, off') = rule_at data off in rules_loop data n (i + 1) off' (rs @ [r]))
      else (rs, off))"
  by (subst rules_loop.simps) (simp add: rule_at_def Let_def split_beta)

lemma player_at_progress: "player_at data off = Inr (p, off') \<Longrightarrow> off < off'"
  using readString_mono [of "off + 1" data]
  by (auto simp: player_at_def Let_def split_beta index_def bindR_def slice_from_def Uint32_def
      split: sum.splits if_splits)

lemma rule_at_progress: "off < length data \<Longrightarrow> off < snd (rule_at data off)"
  using readString_progress [of off data] readString_mono [of "snd (readString data off)" data]
  by (simp add: rule_at_def Let_def split_beta)

text \<open>
  What a loop returns: the entries it appends are read in order from its offset, their
  number stays within the count, and the loop ends at the count or with the offset at or
  beyond the end of the buffer.
\<close>

lemma players_loop_spec:
  "players_loop data n i off acc = Inr (ps, off') \<Longrightarrow> i \<le> n \<Longrightarrow>
   \<exists>new. ps = acc @ new \<and> read_in_order (player_at data) (length data) off new off'
        \<and> i + length new \<le> n \<and> (i + length new = n \<or> length data \<le> off')"
proof (induction "n - i" arbitrary: i off acc)
  case 0
  then have "ps = acc" "off' = off" by (simp_all add: players_loop_unfold)
  with 0 show ?case by (intro exI [of _ "[]"]) simp
next
  case (Suc m)
  show ?case
  proof (cases "off < length data")
    case False
    with Suc.prems have "ps = acc" "off' = off" by (simp_all add: players_loop_unfold)
    with False Suc.prems show ?thesis by (intro exI [of _ "[]"]) simp
  next
    case True
    have lt: "i < n" using Suc.hyps(2) by simp
    from Suc.prems(1) lt True obtain p mid where
      at: "player_at data off = Inr (p, mid)"
      and rest: "players_loop data n (i + 1) mid (acc @ [p]) = Inr (ps, off')"
      by (subst (asm) players_loop_unfold) (auto simp: bindR_def split: sum.splits)
    have "m = n - (i + 1)" using Suc.hyps(2) by simp
    from Suc.hyps(1) [OF this rest] lt obtain new where
      new: "ps = (acc @ [p]) @ new"
        "read_in_order (player_at data) (length data) mid new off'"
        "i + 1 + length new \<le> n" "i + 1 + length new = n \<or> length data \<le> off'"
      by auto
    show ?thesis
      using new at True player_at_progress [OF at]
      by (intro exI [of _ "p # new"]) simp
  qed
qed

lemma rules_loop_spec:
  "rules_loop data n i off acc = (rs, off') \<Longrightarrow> i \<le> n \<Longrightarrow>
   \<exists>new. rs = acc @ new
        \<and> read_in_order (\<lambda>off. Inr (rule_at data off)) (length data) off new off'
        \<and> i + length new \<le> n \<and> (i + length new = n \<or> length data \<le> off')"
proof (induction "n - i" arbitrary: i off acc)
  case 0
  then have "rs = acc" "off' = off" by (simp_all add: rules_loop_unfold)
  with 0 show ?case by (intro exI [of _ "[]"]) simp
next
  case (Suc m)
  show ?case
  proof (cases "off < length data")
    case False
    with Suc.prems have "rs = acc" "off' = off" by (simp_all add: rules_loop_unfold)
    with False Suc.prems show ?thesis by (intro exI [of _ "[]"]) simp
  next
    case True
    have lt: "i < n" using Suc.hyps(2) by simp
    obtain r mid where at: "rule_at data off = (r, mid)" by (cases "rule_at data off")
    from Suc.prems(1) lt True at
    have rest: "rules_loop data n (i + 1) mid (acc @ [r]) = (rs, off')"
      by (subst (asm) rules_loop_unfold) simp
    have "m = n - (i + 1)" using Suc.hyps(2) by simp
    from Suc.hyps(1) [OF this rest] lt obtain new where
      new: "rs = (acc @ [r]) @ new"
        "read_in_order (\<lambda>off. Inr (rule_at data off)) (length data) mid new off'"
        "i + 1 + length new \<le> n" "i + 1 + length new = n \<or> length data \<le> off'"
      by auto
    show ?thesis
      using new at True rule_at_progress [OF True]
      by (intro exI [of _ "r # new"]) simp
  qed
qed

text \<open>
  An entry of a PLAYER payload in bytes, and the loop on every input: it reads entries
  in order until the count is reached, the buffer is used up, or an entry begun has its
  score or duration cut, and only in the last case it fails, with \<open>ErrShortResponse\<close>.
\<close>

lemma Uint32_at:
  "offset + 4 \<le> length data \<Longrightarrow>
   bindR (slice_from data offset) Uint32
     = Inr (le32 (data ! offset) (data ! (offset + 1)) (data ! (offset + 2)) (data ! (offset + 3)))"
  by (simp add: slice_from_def Uint32_def)

lemma player_at_eq:
  assumes "off < length data"
  shows "player_at data off =
     (let name = fst (readString data (off + 1)); e = snd (readString data (off + 1))
      in if length data < e + 8 then Inl (Err ErrShortResponse)
         else Inr (\<lparr>Index = data ! off, PlayerName = name,
                     Score = le32 (data ! e) (data ! (e + 1)) (data ! (e + 2)) (data ! (e + 3)),
                     Duration = le32 (data ! (e + 4)) (data ! (e + 5)) (data ! (e + 6))
                                  (data ! (e + 7)),
                     Deaths = 0, Money = 0\<rparr>, e + 8))"
proof -
  define e where "e = snd (readString data (Suc off))"
  show ?thesis
  proof (cases "length data < e + 8")
    case True
    show ?thesis
    proof (cases "length data < e + 4")
      case short: True
      then show ?thesis
        using assms True
        by (simp add: player_at_def index_in Let_def split_beta e_def [symmetric])
    next
      case False
      then have "e + 4 \<le> length data" by simp
      then show ?thesis
        using assms True
        by (simp add: player_at_def index_in Let_def split_beta e_def [symmetric] Uint32_at)
    qed
  next
    case False
    then have a: "e + 4 \<le> length data" "e + 4 + 4 \<le> length data" by simp_all
    have n: "e + 4 + 1 = e + 5" "e + 4 + 2 = e + 6" "e + 4 + 3 = e + 7" "e + 4 + 4 = e + 8"
      by simp_all
    show ?thesis
      using assms False Uint32_at [OF a(1)] Uint32_at [OF a(2)] unfolding n
      by (simp add: player_at_def index_in Let_def split_beta e_def [symmetric]
          zeroPlayerInfo_def)
  qed
qed

lemma players_loop_total:
  "i \<le> n \<Longrightarrow>
   \<exists>new off'. read_in_order (player_at data) (length data) off new off'
      \<and> i + length new \<le> n
      \<and> (if i + length new < n \<and> off' < length data
          then players_loop data n i off acc = Inl (Err ErrShortResponse)
               \<and> player_at data off' = Inl (Err ErrShortResponse)
          else players_loop data n i off acc = Inr (acc @ new, off'))"
proof (induction "n - i" arbitrary: i off acc)
  case 0
  then have "players_loop data n i off acc = Inr (acc, off)" by (simp add: players_loop_unfold)
  with 0 show ?case by (intro exI [of _ "[]"] exI [of _ off]) simp
next
  case (Suc m)
  have lt: "i < n" using Suc.hyps(2) by simp
  show ?case
  proof (cases "off < length data")
    case False
    then have "players_loop data n i off acc = Inr (acc, off)" by (simp add: players_loop_unfold)
    with False Suc.prems show ?thesis by (intro exI [of _ "[]"] exI [of _ off]) simp
  next
    case True
    show ?thesis
    proof (cases "player_at data off")
      case (Inl f)
      then have f: "f = Err ErrShortResponse"
        using player_at_eq [OF True] by (simp add: Let_def split: if_splits)
      have "players_loop data n i off acc = Inl (Err ErrShortResponse)"
        using lt True Inl f by (subst players_loop_unfold) simp
      with lt True Inl f show ?thesis by (intro exI [of _ "[]"] exI [of _ off]) simp
    next
      case (Inr pm)
      obtain p mid where pm: "pm = (p, mid)" by (cases pm)
      have at: "player_at data off = Inr (p, mid)" using Inr pm by simp
      have step: "players_loop data n i off acc = players_loop data n (i + 1) mid (acc @ [p])"
        using lt True at by (subst players_loop_unfold) simp
      have "m = n - (i + 1)" using Suc.hyps(2) by simp
      from Suc.hyps(1) [OF this, of mid "acc @ [p]"] lt obtain new off' where
        new: "read_in_order (player_at data) (length data) mid new off'"
          "i + 1 + length new \<le> n"
          "if i + 1 + length new < n \<and> off' < length data
           then players_loop data n (i + 1) mid (acc @ [p]) = Inl (Err ErrShortResponse)
                \<and> player_at data off' = Inl (Err ErrShortResponse)
           else players_loop data n (i + 1) mid (acc @ [p]) = Inr ((acc @ [p]) @ new, off')"
        by auto
      show ?thesis
        using new at True player_at_progress [OF at] step
        by (intro exI [of _ "p # new"] exI [of _ off']) (simp split: if_splits)
    qed
  qed
qed

text \<open>
  C7, as the claim states it, fails for PLAYER payloads: a payload that announces one
  player and ends inside the entry does not parse to a list that stops where the buffer
  ends, it is refused with \<open>ErrShortResponse\<close>.
\<close>

theorem player_list_counterexample:
  "parsePlayersResponse [1, 7, 0x41] = Inl (Err ErrShortResponse)"
  by code_simp

text \<open>
  C7, amended. A PLAYER payload (count byte \<open>N\<close>, entries from offset 1) with no byte
  is refused with \<open>ErrShortResponse\<close>. Otherwise let \<open>ps\<close> be the entries read in wire
  order from offset 1, each where the one before it ended, at most \<open>N\<close> of them, up to
  the offset \<open>off'\<close>. If fewer than \<open>N\<close> were read and \<open>off'\<close> is still inside the
  buffer, then the entry begun at \<open>off'\<close> has fewer than 8 bytes after its name for the
  score and the duration, and the payload is refused with \<open>ErrShortResponse\<close>; in every
  other case the parser returns exactly \<open>ps\<close>. An entry read at an offset inside the
  buffer is the slot byte, the name, and the two little-endian 32-bit values after the
  name, and it fails only when those 8 bytes are not all there. So a list that is
  returned is in wire order, has at most \<open>N\<close> entries, and has exactly \<open>N\<close> unless the
  offset after its last entry is at or beyond the end of the buffer. Every RULES payload
  of at least 2 bytes (count \<open>N\<close> the first two bytes little-endian, entries from offset
  2) parses to a list with those same three properties.
\<close>

theorem parse_lists_in_wire_order:
  "(length data < 1 \<longrightarrow> parsePlayersResponse data = Inl (Err ErrShortResponse))
   \<and> (1 \<le> length data \<longrightarrow>
      (\<exists>ps off'. read_in_order (player_at data) (length data) 1 ps off'
         \<and> length ps \<le> unat (data ! 0)
         \<and> (if length ps < unat (data ! 0) \<and> off' < length data
             then parsePlayersResponse data = Inl (Err ErrShortResponse)
                  \<and> length data < snd (readString data (off' + 1)) + 8
             else parsePlayersResponse data = Inr ps)))
   \<and> (off < length data \<longrightarrow>
        player_at data off =
          (let name = fst (readString data (off + 1)); e = snd (readString data (off + 1))
           in if length data < e + 8 then Inl (Err ErrShortResponse)
              else Inr (\<lparr>Index = data ! off, PlayerName = name,
                          Score = le32 (data ! e) (data ! (e + 1)) (data ! (e + 2)) (data ! (e + 3)),
                          Duration = le32 (data ! (e + 4)) (data ! (e + 5)) (data ! (e + 6))
                                       (data ! (e + 7)),
                          Deaths = 0, Money = 0\<rparr>, e + 8)))
   \<and> (parsePlayersResponse data = Inr players \<longrightarrow>
      (\<exists>off'. read_in_order (player_at data) (length data) 1 players off'
         \<and> length players \<le> unat (data ! 0)
         \<and> (length players = unat (data ! 0) \<or> length data \<le> off')))
   \<and> (2 \<le> length data \<longrightarrow>
      (\<exists>rules off'. parseRulesResponse data = Inr rules
         \<and> read_in_order (\<lambda>off. Inr (rule_at data off)) (length data) 2 rules off'
         \<and> length rules \<le> unat (le16 (data ! 0) (data ! 1))
         \<and> (length rules = unat (le16 (data ! 0) (data ! 1)) \<or> length data \<le> off')))"
proof (intro conjI impI)
  assume "length data < 1"
  then show "parsePlayersResponse data = Inl (Err ErrShortResponse)"
    by (simp add: parsePlayersResponse_def)
next
  assume l: "1 \<le> length data"
  let ?n = "unat (data ! 0)"
  have p: "parsePlayersResponse data
             = bindR (players_loop data ?n 0 1 []) (\<lambda>(players, offset). Inr players)"
  proof -
    have "data \<noteq> []" using l by auto
    then show ?thesis by (simp add: parsePlayersResponse_def index_def Let_def)
  qed
  from players_loop_total [of 0 ?n data 1 "[]"] obtain ps off' where
    c: "read_in_order (player_at data) (length data) 1 ps off'" "length ps \<le> ?n"
    and i: "if length ps < ?n \<and> off' < length data
            then players_loop data ?n 0 1 [] = Inl (Err ErrShortResponse)
                 \<and> player_at data off' = Inl (Err ErrShortResponse)
            else players_loop data ?n 0 1 [] = Inr ([] @ ps, off')"
    by auto
  have "if length ps < ?n \<and> off' < length data
        then parsePlayersResponse data = Inl (Err ErrShortResponse)
             \<and> length data < snd (readString data (off' + 1)) + 8
        else parsePlayersResponse data = Inr ps"
  proof (cases "length ps < ?n \<and> off' < length data")
    case True
    with i have s: "players_loop data ?n 0 1 [] = Inl (Err ErrShortResponse)"
      and a: "player_at data off' = Inl (Err ErrShortResponse)" by simp_all
    have "length data < snd (readString data (off' + 1)) + 8"
      using a player_at_eq [of off' data] True by (simp add: Let_def split: if_splits)
    with True s show ?thesis by (simp add: p)
  next
    case False
    with i show ?thesis by (simp add: p)
  qed
  with c show "\<exists>ps off'. read_in_order (player_at data) (length data) 1 ps off'
         \<and> length ps \<le> unat (data ! 0)
         \<and> (if length ps < unat (data ! 0) \<and> off' < length data
             then parsePlayersResponse data = Inl (Err ErrShortResponse)
                  \<and> length data < snd (readString data (off' + 1)) + 8
             else parsePlayersResponse data = Inr ps)"
    by blast
next
  assume "off < length data"
  then show "player_at data off =
          (let name = fst (readString data (off + 1)); e = snd (readString data (off + 1))
           in if length data < e + 8 then Inl (Err ErrShortResponse)
              else Inr (\<lparr>Index = data ! off, PlayerName = name,
                          Score = le32 (data ! e) (data ! (e + 1)) (data ! (e + 2)) (data ! (e + 3)),
                          Duration = le32 (data ! (e + 4)) (data ! (e + 5)) (data ! (e + 6))
                                       (data ! (e + 7)),
                          Deaths = 0, Money = 0\<rparr>, e + 8))"
    by (rule player_at_eq)
next
  assume p: "parsePlayersResponse data = Inr players"
  then have ne: "\<not> length data < 1" by (auto simp: parsePlayersResponse_def)
  then have idx: "index data 0 = Inr (data ! 0)" by (simp add: index_def)
  from p ne idx obtain off' where
    "players_loop data (unat (data ! 0)) 0 1 [] = Inr (players, off')"
    by (auto simp: parsePlayersResponse_def Let_def bindR_def split: sum.splits)
  from players_loop_spec [OF this]
  show "\<exists>off'. read_in_order (player_at data) (length data) 1 players off'
         \<and> length players \<le> unat (data ! 0)
         \<and> (length players = unat (data ! 0) \<or> length data \<le> off')"
    by auto
next
  assume l: "2 \<le> length data"
  obtain rules off' where
    loop: "rules_loop data (unat (le16 (data ! 0) (data ! 1))) 0 2 [] = (rules, off')"
    by (cases "rules_loop data (unat (le16 (data ! 0) (data ! 1))) 0 2 []")
  have "parseRulesResponse data = Inr rules"
    using l loop
    by (simp add: parseRulesResponse_def Let_def slice_from_def Uint16_def numeral_2_eq_2)
  with rules_loop_spec [OF loop]
  show "\<exists>rules off'. parseRulesResponse data = Inr rules
         \<and> read_in_order (\<lambda>off. Inr (rule_at data off)) (length data) 2 rules off'
         \<and> length rules \<le> unat (le16 (data ! 0) (data ! 1))
         \<and> (length rules = unat (le16 (data ! 0) (data ! 1)) \<or> length data \<le> off')"
    by auto
qed

theorem parse_lists_in_wire_order_witness:
  "parsePlayersResponse [] = Inl (Err ErrShortResponse)
   \<and> parsePlayersResponse example_players =
     Inr [\<lparr>Index = 7, PlayerName = [0x41], Score = 1, Duration = 0x3F800000,
           Deaths = 0, Money = 0\<rparr>]
   \<and> (\<exists>off'. read_in_order (player_at example_players) 12 1
          [\<lparr>Index = 7, PlayerName = [0x41], Score = 1, Duration = 0x3F800000,
            Deaths = 0, Money = 0\<rparr>] off' \<and> 12 \<le> off')
   \<and> (\<exists>ps off'. read_in_order (player_at example_players) 12 1 ps off'
          \<and> parsePlayersResponse example_players = Inr ps)
   \<and> player_at [1, 7, 0x41] 1 = Inl (Err ErrShortResponse)
   \<and> (\<exists>rules off'. parseRulesResponse example_rules = Inr rules
          \<and> read_in_order (\<lambda>off. Inr (rule_at example_rules off)) 17 2 rules off'
          \<and> length rules = 2)"
proof -
  let ?P = "\<lparr>Index = 7, PlayerName = [0x41], Score = 1, Duration = 0x3F800000,
           Deaths = 0, Money = 0\<rparr>"
  have e: "parsePlayersResponse [] = Inl (Err ErrShortResponse)"
    using parse_lists_in_wire_order [of "[]", THEN conjunct1] by simp
  have p: "parsePlayersResponse example_players = Inr [?P]"
    by code_simp
  have l: "length example_players = 12" "length example_rules = 17"
    "unat (example_players ! 0) = 3" "unat (le16 (example_rules ! 0) (example_rules ! 1)) = 2"
    by (simp_all add: example_players_def example_rules_def le16_def)
  have r: "2 \<le> length example_rules" by (simp add: l)
  have one: "1 \<le> length example_players" by (simp add: l)
  note t = parse_lists_in_wire_order [of example_players 0 "[?P]"]
  obtain off' where
    o: "read_in_order (player_at example_players) (length example_players) 1 [?P] off'"
    and d: "length [?P] = unat (example_players ! 0) \<or> length example_players \<le> off'"
    using t [THEN conjunct2, THEN conjunct2, THEN conjunct2, THEN conjunct1, rule_format, OF p]
    by blast
  have "12 \<le> off'" using d unfolding l by simp
  with o have a: "\<exists>off'. read_in_order (player_at example_players) 12 1 [?P] off' \<and> 12 \<le> off'"
    unfolding l by blast
  obtain ps off1 where
    t1: "read_in_order (player_at example_players) (length example_players) 1 ps off1"
    and t2: "if length ps < unat (example_players ! 0) \<and> off1 < length example_players
             then parsePlayersResponse example_players = Inl (Err ErrShortResponse)
                  \<and> length example_players < snd (readString example_players (off1 + 1)) + 8
             else parsePlayersResponse example_players = Inr ps"
    using t [THEN conjunct2, THEN conjunct1, rule_format, OF one] by blast
  have "parsePlayersResponse example_players = Inr ps"
    using t2 p by (simp split: if_splits)
  with t1 have b: "\<exists>ps off'. read_in_order (player_at example_players) 12 1 ps off'
          \<and> parsePlayersResponse example_players = Inr ps"
    unfolding l by blast
  have rs: "readString [1, 7, 0x41] 2 = ([0x41], 3)" by code_simp
  have cut: "player_at [1, 7, 0x41] 1 = Inl (Err ErrShortResponse)"
    using parse_lists_in_wire_order [of "[1, 7, 0x41]" 1,
        THEN conjunct2, THEN conjunct2, THEN conjunct1]
    by (simp add: rs)
  obtain rules off2 where b2: "parseRulesResponse example_rules = Inr rules"
    "read_in_order (\<lambda>off. Inr (rule_at example_rules off)) (length example_rules) 2 rules off2"
    using parse_lists_in_wire_order [of example_rules 0 "[]", THEN conjunct2, THEN conjunct2,
        THEN conjunct2, THEN conjunct2, rule_format, OF r]
    by blast
  have "parseRulesResponse example_rules =
      Inr [\<lparr>RuleName = [0x6D, 0x6F, 0x64, 0x65], RuleValue = [0x63, 0x74, 0x66]\<rparr>,
           \<lparr>RuleName = [0x66, 0x66, 0x61], RuleValue = [0x30]\<rparr>]"
    by code_simp
  with b2(1) have "length rules = 2" by auto
  with b2 have c: "\<exists>rules off'. parseRulesResponse example_rules = Inr rules
          \<and> read_in_order (\<lambda>off. Inr (rule_at example_rules off)) 17 2 rules off'
          \<and> length rules = 2"
    unfolding l by blast
  from e p a b cut c show ?thesis by (intro conjI)
qed

section \<open>A RULES payload that ends inside an entry\<close>

lemma scan_skip:
  "0 \<notin> set s \<Longrightarrow>
   scan (pre @ s @ rest) (length pre) = scan (pre @ s @ rest) (length pre + length s)"
proof (induction s arbitrary: pre)
  case Nil
  then show ?case by simp
next
  case (Cons x s)
  have "scan (pre @ (x # s) @ rest) (length pre) = scan (pre @ (x # s) @ rest) (length pre + 1)"
    using Cons.prems by (subst scan.simps) simp
  also have "\<dots> = scan ((pre @ [x]) @ s @ rest) (length (pre @ [x]))" by simp
  also have "\<dots> = scan ((pre @ [x]) @ s @ rest) (length (pre @ [x]) + length s)"
    using Cons.prems by (intro Cons.IH) simp
  finally show ?case by simp
qed

lemma scan_stop_zero: "scan (pre @ 0 # rest) (length pre) = length pre"
  by (subst scan.simps) simp

lemma scan_stop_end: "length data \<le> off \<Longrightarrow> scan data off = off"
  by (subst scan.simps) simp

lemma readString_terminated:
  assumes "0 \<notin> set s"
  shows "readString (pre @ s @ 0 # rest) (length pre) = (s, length pre + length s + 1)"
proof -
  have "scan (pre @ s @ 0 # rest) (length pre) = scan (pre @ s @ 0 # rest) (length pre + length s)"
    using assms by (rule scan_skip)
  also have "\<dots> = scan ((pre @ s) @ 0 # rest) (length (pre @ s))" by simp
  also have "\<dots> = length (pre @ s)" by (rule scan_stop_zero)
  finally have "scan (pre @ s @ 0 # rest) (length pre) = length pre + length s" by simp
  then show ?thesis by (simp add: readString_def)
qed

lemma readString_unterminated:
  assumes "0 \<notin> set s" and "s \<noteq> []"
  shows "readString (pre @ s) (length pre) = (s, length pre + length s)"
proof -
  have "scan (pre @ s @ []) (length pre) = scan (pre @ s @ []) (length pre + length s)"
    using assms(1) by (rule scan_skip)
  then have "scan (pre @ s) (length pre) = length pre + length s"
    by (simp add: scan_stop_end)
  then show ?thesis using assms(2) by (simp add: readString_def)
qed

lemma rule_at_complete:
  assumes "wire_rule r"
  shows "rule_at (pre @ encode_rule r @ rest) (length pre)
           = (r, length pre + length (encode_rule r))"
proof -
  have n: "readString (pre @ RuleName r @ 0 # (RuleValue r @ 0 # rest)) (length pre)
             = (RuleName r, length pre + length (RuleName r) + 1)"
    using assms by (intro readString_terminated) (simp add: wire_rule_def)
  have v: "readString ((pre @ RuleName r @ [0]) @ RuleValue r @ 0 # rest)
               (length (pre @ RuleName r @ [0]))
             = (RuleValue r, length (pre @ RuleName r @ [0]) + length (RuleValue r) + 1)"
    using assms by (intro readString_terminated) (simp add: wire_rule_def)
  show ?thesis
    using n v by (simp add: rule_at_def encode_rule_def)
qed

lemma rules_loop_complete:
  "list_all wire_rule rs \<Longrightarrow> i + length rs \<le> n \<Longrightarrow>
   rules_loop (pre @ concat (map encode_rule rs) @ rest) n i (length pre) acc
     = rules_loop (pre @ concat (map encode_rule rs) @ rest) n (i + length rs)
         (length pre + length (concat (map encode_rule rs))) (acc @ rs)"
proof (induction rs arbitrary: pre i acc)
  case Nil
  then show ?case by simp
next
  case (Cons r rs)
  let ?data = "pre @ concat (map encode_rule (r # rs)) @ rest"
  have d: "?data = pre @ encode_rule r @ (concat (map encode_rule rs) @ rest)" by simp
  have d': "?data = (pre @ encode_rule r) @ concat (map encode_rule rs) @ rest" by simp
  have w: "wire_rule r" "list_all wire_rule rs" using Cons.prems(1) by simp_all
  have lt: "i < n" "length pre < length ?data"
    using Cons.prems(2) by (simp_all add: encode_rule_def)
  have at: "rule_at ?data (length pre) = (r, length (pre @ encode_rule r))"
    unfolding d using rule_at_complete [OF w(1)] by simp
  have "rules_loop ?data n i (length pre) acc
          = rules_loop ?data n (i + 1) (length (pre @ encode_rule r)) (acc @ [r])"
    using lt at by (subst rules_loop_unfold) simp
  also have "\<dots> = rules_loop ?data n (i + 1 + length rs)
                      (length (pre @ encode_rule r) + length (concat (map encode_rule rs)))
                      ((acc @ [r]) @ rs)"
    unfolding d' using w(2) Cons.prems(2) by (intro Cons.IH) simp_all
  finally show ?case by (simp add: add.assoc)
qed

lemma rules_loop_last_entry:
  assumes "i < n" and "tail \<noteq> []" and "rule_at (pre @ tail) (length pre) = (r, length (pre @ tail))"
  shows "rules_loop (pre @ tail) n i (length pre) acc = (acc @ [r], length (pre @ tail))"
proof -
  have "rules_loop (pre @ tail) n i (length pre) acc
          = rules_loop (pre @ tail) n (i + 1) (length (pre @ tail)) (acc @ [r])"
    using assms by (subst rules_loop_unfold) simp
  also have "\<dots> = (acc @ [r], length (pre @ tail))"
    by (subst rules_loop_unfold) simp
  finally show ?thesis .
qed

lemma parseRulesResponse_body:
  "parseRulesResponse ([lo, hi] @ body)
     = Inr (fst (rules_loop ([lo, hi] @ body) (unat (le16 lo hi)) 0 (length [lo, hi]) []))"
  by (simp add: parseRulesResponse_def slice_from_def Uint16_def Let_def numeral_2_eq_2)

lemma parseRulesResponse_tail:
  assumes "list_all wire_rule rs" and "length rs < unat (le16 lo hi)" and "tail \<noteq> []"
    and "\<And>pre. rule_at (pre @ tail) (length pre) = (r, length (pre @ tail))"
  shows "parseRulesResponse ([lo, hi] @ concat (map encode_rule rs) @ tail) = Inr (rs @ [r])"
proof -
  let ?n = "unat (le16 lo hi)"
  let ?enc = "concat (map encode_rule rs)"
  let ?data = "[lo, hi] @ ?enc @ tail"
  have "rules_loop ?data ?n 0 (length [lo, hi]) []
          = rules_loop ?data ?n (0 + length rs) (length [lo, hi] + length ?enc) ([] @ rs)"
    using assms(1,2) by (intro rules_loop_complete) simp_all
  also have "\<dots> = rules_loop (([lo, hi] @ ?enc) @ tail) ?n (length rs)
                      (length ([lo, hi] @ ?enc)) rs"
    by simp
  also have "\<dots> = (rs @ [r], length (([lo, hi] @ ?enc) @ tail))"
    using assms(2,3) assms(4) [of "[lo, hi] @ ?enc"] by (intro rules_loop_last_entry)
  finally have loop: "rules_loop ?data ?n 0 (length [lo, hi]) []
                        = (rs @ [r], length (([lo, hi] @ ?enc) @ tail))" .
  show ?thesis unfolding parseRulesResponse_body loop by simp
qed

text \<open>
  C10. A RULES payload that holds the complete rules \<open>rs\<close>, fewer than its count, and
  then ends inside the next entry. When it ends inside the name (some bytes of it, no
  zero byte) or right after the name's zero byte, the parser still appends the entry,
  with the name as far as it was read and the empty string as value. When it ends inside
  the value, the entry is appended with the value as far as it was read. In no case is
  the entry dropped or an error returned.
\<close>

theorem parseRulesResponse_partial_entry:
  assumes "list_all wire_rule rs" and "length rs < unat (le16 lo hi)"
    and "0 \<notin> set name" and "0 \<notin> set val"
  shows "(name \<noteq> [] \<longrightarrow>
           parseRulesResponse ([lo, hi] @ concat (map encode_rule rs) @ name)
             = Inr (rs @ [\<lparr>RuleName = name, RuleValue = []\<rparr>]))
       \<and> parseRulesResponse ([lo, hi] @ concat (map encode_rule rs) @ name @ [0])
             = Inr (rs @ [\<lparr>RuleName = name, RuleValue = []\<rparr>])
       \<and> (val \<noteq> [] \<longrightarrow>
           parseRulesResponse ([lo, hi] @ concat (map encode_rule rs) @ name @ [0] @ val)
             = Inr (rs @ [\<lparr>RuleName = name, RuleValue = val\<rparr>]))"
proof (intro conjI impI)
  assume ne: "name \<noteq> []"
  have "rule_at (pre @ name) (length pre)
          = (\<lparr>RuleName = name, RuleValue = []\<rparr>, length (pre @ name))" for pre
    using readString_unterminated [OF assms(3) ne, of pre]
    by (simp add: rule_at_def readString_end)
  with assms(1,2) ne
  show "parseRulesResponse ([lo, hi] @ concat (map encode_rule rs) @ name)
          = Inr (rs @ [\<lparr>RuleName = name, RuleValue = []\<rparr>])"
    by (intro parseRulesResponse_tail)
next
  have "rule_at (pre @ name @ [0]) (length pre)
          = (\<lparr>RuleName = name, RuleValue = []\<rparr>, length (pre @ name @ [0]))" for pre
    using readString_terminated [OF assms(3), of pre "[]"]
    by (simp add: rule_at_def readString_end)
  with assms(1,2)
  show "parseRulesResponse ([lo, hi] @ concat (map encode_rule rs) @ name @ [0])
          = Inr (rs @ [\<lparr>RuleName = name, RuleValue = []\<rparr>])"
    by (intro parseRulesResponse_tail) simp_all
next
  assume ne: "val \<noteq> []"
  have "rule_at (pre @ name @ [0] @ val) (length pre)
          = (\<lparr>RuleName = name, RuleValue = val\<rparr>, length (pre @ name @ [0] @ val))" for pre
  proof -
    have n: "readString (pre @ name @ 0 # val) (length pre) = (name, length pre + length name + 1)"
      using assms(3) by (rule readString_terminated)
    have v: "readString ((pre @ name @ [0]) @ val) (length (pre @ name @ [0]))
               = (val, length (pre @ name @ [0]) + length val)"
      using assms(4) ne by (rule readString_unterminated)
    show ?thesis using n v by (simp add: rule_at_def)
  qed
  with assms(1,2)
  show "parseRulesResponse ([lo, hi] @ concat (map encode_rule rs) @ name @ [0] @ val)
          = Inr (rs @ [\<lparr>RuleName = name, RuleValue = val\<rparr>])"
    by (intro parseRulesResponse_tail) simp_all
qed

theorem parseRulesResponse_partial_entry_witness:
  "parseRulesResponse [0x02, 0x00, 0x6D, 0x6F, 0x64, 0x65, 0, 0x63, 0x74, 0x66, 0, 0x66, 0x66]
     = Inr [\<lparr>RuleName = [0x6D, 0x6F, 0x64, 0x65], RuleValue = [0x63, 0x74, 0x66]\<rparr>,
            \<lparr>RuleName = [0x66, 0x66], RuleValue = []\<rparr>]
   \<and> parseRulesResponse [0x02, 0x00, 0x6D, 0x6F, 0x64, 0x65, 0, 0x63, 0x74, 0x66, 0, 0x66, 0x66, 0]
     = Inr [\<lparr>RuleName = [0x6D, 0x6F, 0x64, 0x65], RuleValue = [0x63, 0x74, 0x66]\<rparr>,
            \<lparr>RuleName = [0x66, 0x66], RuleValue = []\<rparr>]
   \<and> parseRulesResponse
       [0x02, 0x00, 0x6D, 0x6F, 0x64, 0x65, 0, 0x63, 0x74, 0x66, 0, 0x66, 0x66, 0, 0x30]
     = Inr [\<lparr>RuleName = [0x6D, 0x6F, 0x64, 0x65], RuleValue = [0x63, 0x74, 0x66]\<rparr>,
            \<lparr>RuleName = [0x66, 0x66], RuleValue = [0x30]\<rparr>]"
  using parseRulesResponse_partial_entry
    [of "[\<lparr>RuleName = [0x6D, 0x6F, 0x64, 0x65], RuleValue = [0x63, 0x74, 0x66]\<rparr>]"
        "0x02" "0x00" "[0x66, 0x66]" "[0x30]"]
  by (simp add: wire_rule_def encode_rule_def le16_def)

section \<open>The cached challenge\<close>



lemma decodes_as_const:
  "r \<noteq> Inl (Err ErrChallengeRequired) \<Longrightarrow> decodes_as (\<lambda>c e. (c, r)) None"
  by (simp add: decodes_as_def)




















end
